theory Spec2Isabelle
  imports Main "HOL-Library.Sublist" "HOL-Library.AList"
begin

section \<open>Markup and checkbox state\<close>

text \<open>
  The component works on nested list markup: every list item holds exactly one checkbox
  (followed by its label) and optionally one nested list with the items of the next
  level, both as children of the item, as in the markup of the repository's tests and
  benchmark.  The nesting itself is never changed by the component, only the two
  properties \<open>checked\<close> and \<open>indeterminate\<close> of the checkboxes are.

  An item is therefore modelled by its optional nested list, an element reference by the
  child indices that lead from the outermost list to the item (the checkbox of an item
  and the item share the reference), and the mutable part of the document by a store
  from references to the two properties.
\<close>

datatype li = LI (ul: "li list option")

text \<open>
  A reference points to an item, and to the checkbox of that item: the child indices that
  lead from the outermost list to the item.  A nested list is referred to by the reference
  of the item that owns it, the outermost list by the empty reference.
\<close>

type_synonym ref = "nat list"

text \<open>The two properties of a checkbox the component reads and writes.\<close>

record checkbox =
  checked :: bool
  indeterminate :: bool

type_synonym store = "ref \<Rightarrow> checkbox"

text \<open>The item a reference points to: the result of \<^verbatim>\<open>checkbox.closest('li')\<close>.\<close>

fun li_at :: "li list \<Rightarrow> ref \<Rightarrow> li option" where
  "li_at items [] = None"
| "li_at items [i] = (if i < length items then Some (items ! i) else None)"
| "li_at items (i # j # p) =
     (if i < length items
      then (case ul (items ! i) of None \<Rightarrow> None | Some kids \<Rightarrow> li_at kids (j # p))
      else None)"

text \<open>The items of a list element: of the outermost list, or of the list an item owns.\<close>

definition list_at :: "li list \<Rightarrow> ref \<Rightarrow> li list option" where
  "list_at items r =
     (if r = [] then Some items
      else (case li_at items r of None \<Rightarrow> None | Some l \<Rightarrow> ul l))"

text \<open>An item that owns a nested list (a grouping node when the list is not empty).\<close>

definition owns_list :: "li list \<Rightarrow> ref \<Rightarrow> bool" where
  "owns_list items q = (case li_at items q of None \<Rightarrow> False | Some l \<Rightarrow> ul l \<noteq> None)"

section \<open>Relationship lookup\<close>

text \<open>
  \<^verbatim>\<open>_findChildCheckboxes\<close>: the item of the checkbox, its own nested list
  (\<^verbatim>\<open>:scope > ul\<close>), and the checkboxes of the items of that list
  (\<^verbatim>\<open>:scope > li > input\<close>), in document order.
\<close>

definition findChildCheckboxes :: "li list \<Rightarrow> ref \<Rightarrow> ref list" where
  "findChildCheckboxes items parentCheckbox =
     (case li_at items parentCheckbox of
        None \<Rightarrow> []
      | Some l \<Rightarrow>
          (case ul l of
             None \<Rightarrow> []
           | Some kids \<Rightarrow> map (\<lambda>i. parentCheckbox @ [i]) [0..<length kids]))"

text \<open>
  \<^verbatim>\<open>_findParentCheckbox\<close>: the item of the checkbox, the item enclosing the list that
  item sits in (there is none for an item of the outermost list), and that item's checkbox.
\<close>

definition findParentCheckbox :: "li list \<Rightarrow> ref \<Rightarrow> ref option" where
  "findParentCheckbox items c =
     (case li_at items c of
        None \<Rightarrow> None
      | Some l \<Rightarrow> (if length c \<le> 1 then None else Some (butlast c)))"

section \<open>Recomputing a parent from its children\<close>

text \<open>The counting loop of \<^verbatim>\<open>_updateParentState\<close>; the pair is
  (\<^verbatim>\<open>checkedCount\<close>, \<^verbatim>\<open>indeterminateCount\<close>).\<close>

definition count_step :: "store \<Rightarrow> ref \<Rightarrow> nat \<times> nat \<Rightarrow> nat \<times> nat" where
  "count_step s c acc =
     (if indeterminate (s c) then (fst acc, snd acc + 1)
      else if checked (s c) then (fst acc + 1, snd acc)
      else acc)"

definition updateParentState :: "li list \<Rightarrow> store \<Rightarrow> ref \<Rightarrow> store" where
  "updateParentState items s parentCheckbox =
     (let childCheckboxes = findChildCheckboxes items parentCheckbox in
      if childCheckboxes = [] then s
      else
        let counts = fold (count_step s) childCheckboxes (0, 0);
            checkedCount = fst counts;
            indeterminateCount = snd counts
        in
          if indeterminateCount > 0 \<or>
             (checkedCount > 0 \<and> checkedCount < length childCheckboxes)
          then s(parentCheckbox := \<lparr>checked = False, indeterminate = True\<rparr>)
          else if checkedCount = length childCheckboxes
          then s(parentCheckbox := \<lparr>checked = True, indeterminate = False\<rparr>)
          else s(parentCheckbox := \<lparr>checked = False, indeterminate = False\<rparr>))"

section \<open>Downward propagation\<close>

text \<open>
  All checkboxes below an item in document order (\<^verbatim>\<open>querySelectorAll('input')\<close> on its
  nested list): within an item the checkbox precedes the nested list.
\<close>

fun inputs_li :: "ref \<Rightarrow> li \<Rightarrow> ref list"
  and inputs_ul :: "ref \<Rightarrow> nat \<Rightarrow> li list \<Rightarrow> ref list" where
  "inputs_li r (LI None) = [r]"
| "inputs_li r (LI (Some kids)) = r # inputs_ul r 0 kids"
| "inputs_ul r i [] = []"
| "inputs_ul r i (x # xs) = inputs_li (r @ [i]) x @ inputs_ul r (Suc i) xs"

text \<open>
  \<^verbatim>\<open>_setChildCheckboxes\<close>: the item of the checkbox, the first list below it
  (\<^verbatim>\<open>li.querySelector('ul')\<close>, which is the item's own nested list when it has one and
  absent otherwise), and every checkbox in that list, each set to the given value with
  \<open>indeterminate\<close> cleared.
\<close>

definition setChildCheckboxes :: "li list \<Rightarrow> store \<Rightarrow> ref \<Rightarrow> bool \<Rightarrow> store" where
  "setChildCheckboxes items s parentCheckbox isChecked =
     (case li_at items parentCheckbox of
        None \<Rightarrow> s
      | Some l \<Rightarrow>
          (case ul l of
             None \<Rightarrow> s
           | Some kids \<Rightarrow>
               fold (\<lambda>c st. st(c := \<lparr>checked = isChecked, indeterminate = False\<rparr>))
                 (inputs_ul parentCheckbox 0 kids) s))"

section \<open>Upward propagation\<close>

text \<open>\<^verbatim>\<open>_updateAncestorCheckboxes\<close>: the loop that walks up while there is a parent.\<close>

function updateAncestorCheckboxes :: "li list \<Rightarrow> store \<Rightarrow> ref \<Rightarrow> store" where
  "updateAncestorCheckboxes items s currentCheckbox =
     (case findParentCheckbox items currentCheckbox of
        None \<Rightarrow> s
      | Some parent \<Rightarrow>
          updateAncestorCheckboxes items (updateParentState items s parent) parent)"
  by pat_completeness auto
termination
  by (relation "measure (\<lambda>(items, s, c). length c)")
     (auto simp: findParentCheckbox_def split: option.splits if_splits)

section \<open>The change handler\<close>

text \<open>
  The handler made by \<^verbatim>\<open>_createChangeHandler\<close> for a checkbox.  It runs after the
  checkbox has changed and reads the new value from the checkbox.
\<close>

definition changeHandler :: "li list \<Rightarrow> store \<Rightarrow> ref \<Rightarrow> store" where
  "changeHandler items s checkbox =
     (let isChecked = checked (s checkbox);
          s1 = setChildCheckboxes items s checkbox isChecked
      in updateAncestorCheckboxes items s1 checkbox)"

text \<open>
  What precedes the handler: the user activates the checkbox.  The activation gives the
  checkbox its new checkedness and clears \<open>indeterminate\<close>, and only then is the change
  event fired, on which the handler reads the state that was just set by the user.
\<close>

definition userActivation :: "store \<Rightarrow> ref \<Rightarrow> bool \<Rightarrow> store" where
  "userActivation s c v = s(c := \<lparr>checked = v, indeterminate = False\<rparr>)"

text \<open>A toggle of the node \<open>n\<close> to the value \<open>v\<close>: the activation, then the handler.\<close>

definition onToggle :: "li list \<Rightarrow> store \<Rightarrow> ref \<Rightarrow> bool \<Rightarrow> store" where
  "onToggle items s n v = changeHandler items (userActivation s n v) n"

subsection \<open>The handler with a log of its writes\<close>

text \<open>
  To speak about the order of the writes, the handler is also given with a log: every
  assignment of \<^verbatim>\<open>_setChildCheckboxes\<close> to a checkbox appends \<open>Forced\<close>, every call of
  \<^verbatim>\<open>_updateParentState\<close> from \<^verbatim>\<open>_updateAncestorCheckboxes\<close> appends \<open>Recomputed\<close>.
  The three functions below are the ones above with the log threaded through.
\<close>

datatype event = Forced ref bool | Recomputed ref

definition setChildCheckboxesT ::
  "li list \<Rightarrow> store \<times> event list \<Rightarrow> ref \<Rightarrow> bool \<Rightarrow> store \<times> event list" where
  "setChildCheckboxesT items sl parentCheckbox isChecked =
     (case li_at items parentCheckbox of
        None \<Rightarrow> sl
      | Some l \<Rightarrow>
          (case ul l of
             None \<Rightarrow> sl
           | Some kids \<Rightarrow>
               fold (\<lambda>c sl'. ((fst sl')(c := \<lparr>checked = isChecked, indeterminate = False\<rparr>),
                               snd sl' @ [Forced c isChecked]))
                 (inputs_ul parentCheckbox 0 kids) sl))"

function updateAncestorCheckboxesT ::
  "li list \<Rightarrow> store \<times> event list \<Rightarrow> ref \<Rightarrow> store \<times> event list" where
  "updateAncestorCheckboxesT items sl currentCheckbox =
     (case findParentCheckbox items currentCheckbox of
        None \<Rightarrow> sl
      | Some parent \<Rightarrow>
          updateAncestorCheckboxesT items
            (updateParentState items (fst sl) parent, snd sl @ [Recomputed parent]) parent)"
  by pat_completeness auto
termination
  by (relation "measure (\<lambda>(items, sl, c). length c)")
     (auto simp: findParentCheckbox_def split: option.splits if_splits)

definition changeHandlerT :: "li list \<Rightarrow> store \<Rightarrow> ref \<Rightarrow> store \<times> event list" where
  "changeHandlerT items s checkbox =
     (let isChecked = checked (s checkbox);
          sl1 = setChildCheckboxesT items (s, []) checkbox isChecked
      in updateAncestorCheckboxesT items sl1 checkbox)"

text \<open>
  The items above an item, from its immediate parent up to the item of the outermost
  list.
\<close>

definition ancestors :: "ref \<Rightarrow> ref list" where
  "ancestors n = map (\<lambda>k. take k n) (rev [1..<length n])"

section \<open>Initialisation\<close>

text \<open>
  Elements as far as \<^verbatim>\<open>_getElementDepth\<close> sees them: a nested list is referred to by
  the reference of the item that owns it, the outermost list by the empty reference, and
  \<open>Above k\<close> is the element above the outermost list that has \<open>k\<close> ancestors of its own.
  The number of ancestors of the outermost list is a parameter of the document.
\<close>

datatype element = Above nat | ListEl ref | ItemEl ref

fun parentElement :: "nat \<Rightarrow> element \<Rightarrow> element option" where
  "parentElement d0 (Above k) = (if k = 0 then None else Some (Above (k - 1)))"
| "parentElement d0 (ListEl r) =
     (if r = [] then (if d0 = 0 then None else Some (Above (d0 - 1))) else Some (ItemEl r))"
| "parentElement d0 (ItemEl r) = (if r = [] then None else Some (ListEl (butlast r)))"

text \<open>The number of ancestors of an element, the measure of the loop below.\<close>

fun rank :: "nat \<Rightarrow> element \<Rightarrow> nat" where
  "rank d0 (Above k) = k"
| "rank d0 (ListEl r) = d0 + 2 * length r"
| "rank d0 (ItemEl r) = d0 + 2 * length r - 1"

text \<open>\<^verbatim>\<open>_getElementDepth\<close>: count the steps to the element without a parent.\<close>

function depthLoop :: "nat \<Rightarrow> nat \<Rightarrow> element \<Rightarrow> nat" where
  "depthLoop d0 depth current =
     (case parentElement d0 current of
        None \<Rightarrow> depth
      | Some p \<Rightarrow> depthLoop d0 (depth + 1) p)"
  by pat_completeness auto
termination
proof (relation "measure (\<lambda>(d0, depth, current). rank d0 current)")
  show "wf (measure (\<lambda>(d0, depth, current). rank d0 current))"
    by simp
next
  fix d0 depth :: nat and current p :: element
  assume "parentElement d0 current = Some p"
  then have "rank d0 p < rank d0 current"
    by (cases current) (auto split: if_splits simp: length_butlast neq_Nil_conv)
  then show "((d0, depth + 1, p), (d0, depth, current))
      \<in> measure (\<lambda>(d0, depth, current). rank d0 current)"
    by simp
qed

definition getElementDepth :: "nat \<Rightarrow> element \<Rightarrow> nat" where
  "getElementDepth d0 element = depthLoop d0 0 element"

text \<open>
  The depth of the specification, the distance of an element from the root of the tree:
  the same count of parents as \<^verbatim>\<open>_getElementDepth\<close>, stopped at the root.
\<close>

function distanceLoop :: "element \<Rightarrow> nat \<Rightarrow> nat \<Rightarrow> element \<Rightarrow> nat" where
  "distanceLoop stop d0 depth current =
     (if current = stop then depth
      else (case parentElement d0 current of
              None \<Rightarrow> depth
            | Some p \<Rightarrow> distanceLoop stop d0 (depth + 1) p))"
  by pat_completeness auto
termination
proof (relation "measure (\<lambda>(stop, d0, depth, current). rank d0 current)")
  show "wf (measure (\<lambda>(stop, d0, depth, current). rank d0 current))"
    by simp
next
  fix stop :: element and d0 depth :: nat and current p :: element
  assume "parentElement d0 current = Some p"
  then have "rank d0 p < rank d0 current"
    by (cases current) (auto split: if_splits simp: length_butlast neq_Nil_conv)
  then show "((stop, d0, depth + 1, p), (stop, d0, depth, current))
      \<in> measure (\<lambda>(stop, d0, depth, current). rank d0 current)"
    by simp
qed

definition distanceFromRoot :: "nat \<Rightarrow> ref \<Rightarrow> ref \<Rightarrow> nat" where
  "distanceFromRoot d0 root u = distanceLoop (ListEl root) d0 0 (ListEl u)"

text \<open>The nested lists below an item, in document order.\<close>

fun uls_li :: "ref \<Rightarrow> li \<Rightarrow> ref list"
  and uls_ul :: "ref \<Rightarrow> nat \<Rightarrow> li list \<Rightarrow> ref list" where
  "uls_li r (LI None) = []"
| "uls_li r (LI (Some kids)) = r # uls_ul r 0 kids"
| "uls_ul r i [] = []"
| "uls_ul r i (x # xs) = uls_li (r @ [i]) x @ uls_ul r (Suc i) xs"

text \<open>\<^verbatim>\<open>root.querySelectorAll('ul')\<close> and \<^verbatim>\<open>root.querySelectorAll('input')\<close>
  for a root that is a list element.\<close>

definition root_uls :: "li list \<Rightarrow> ref \<Rightarrow> ref list" where
  "root_uls items root =
     (case list_at items root of None \<Rightarrow> [] | Some kids \<Rightarrow> uls_ul root 0 kids)"

definition root_inputs :: "li list \<Rightarrow> ref \<Rightarrow> ref list" where
  "root_inputs items root =
     (case list_at items root of None \<Rightarrow> [] | Some kids \<Rightarrow> inputs_ul root 0 kids)"

text \<open>
  \<^verbatim>\<open>ul.parentElement.querySelectorAll(':scope > input')\<close>: the checkbox of the item that
  owns the list.
\<close>

definition parentCheckboxes :: "li list \<Rightarrow> ref \<Rightarrow> ref list" where
  "parentCheckboxes items u = (case li_at items u of None \<Rightarrow> [] | Some l \<Rightarrow> [u])"

text \<open>
  \<^verbatim>\<open>_initializeState\<close>.  The comparator \<^verbatim>\<open>depthB - depthA\<close> of the (stable) sort
  puts the deeper list first, which is an ascending stable sort on the negated depth.
\<close>

definition sortedUls :: "li list \<Rightarrow> nat \<Rightarrow> ref \<Rightarrow> ref list" where
  "sortedUls items d0 root =
     sort_key (\<lambda>u. - int (getElementDepth d0 (ListEl u))) (root_uls items root)"

definition initializeState :: "li list \<Rightarrow> nat \<Rightarrow> store \<Rightarrow> ref \<Rightarrow> store" where
  "initializeState items d0 s root =
     fold (\<lambda>u st. fold (\<lambda>checkbox st'. updateParentState items st' checkbox)
                     (parentCheckboxes items u) st)
       (sortedUls items d0 root) s"

section \<open>Construction and teardown\<close>

type_synonym handler = nat

text \<open>
  What the constructor and \<^verbatim>\<open>destroy\<close> touch besides the checkboxes: the change
  listeners registered on the checkboxes, in the order of registration, and the error
  console.  A handler is a fresh closure, identified by a number; the checkbox it was made
  for is the one it is registered on.
\<close>

record page =
  boxes :: store
  listeners :: "(ref \<times> handler) list"
  console :: "string list"
  nextHandler :: handler

text \<open>
  An instance.  \<^verbatim>\<open>_handlers\<close> is a \<^verbatim>\<open>Map\<close> from checkboxes to handlers, kept
  in insertion order, and absent until the constructor creates it.
\<close>

record tristateCheckbox =
  roots :: "ref list"
  handlers :: "(ref \<times> handler) list option"

text \<open>
  The argument of the constructor: a string, an element, a \<^verbatim>\<open>NodeList\<close> or array of
  elements, or anything else.  Roots are list elements.
\<close>

datatype selector = Str string | Element ref | Collection "ref list" | Unsupported

datatype exn = SyntaxError | TypeError

text \<open>
  \<^verbatim>\<open>_getElements\<close>.  \<^verbatim>\<open>document.querySelectorAll\<close> is a parameter: it yields the
  roots a selector string matches, or throws on a string that is no selector.
\<close>

definition getElements :: "(string \<Rightarrow> exn + ref list) \<Rightarrow> selector \<Rightarrow> exn + ref list" where
  "getElements querySelectorAll selector =
     (case selector of
        Str str \<Rightarrow> querySelectorAll str
      | Element e \<Rightarrow> Inr [e]
      | Collection es \<Rightarrow> Inr es
      | Unsupported \<Rightarrow> Inr [])"

text \<open>The body of the inner loop of \<^verbatim>\<open>_init\<close> for one checkbox.\<close>

definition attach :: "ref \<Rightarrow> page \<times> (ref \<times> handler) list \<Rightarrow> page \<times> (ref \<times> handler) list" where
  "attach checkbox ph =
     (let handler = nextHandler (fst ph) in
      ((fst ph)\<lparr>listeners := listeners (fst ph) @ [(checkbox, handler)],
                nextHandler := handler + 1\<rparr>,
       AList.update checkbox handler (snd ph)))"

text \<open>The body of the outer loop of \<^verbatim>\<open>_init\<close> for one root.\<close>

definition init_root ::
  "li list \<Rightarrow> nat \<Rightarrow> ref \<Rightarrow> page \<times> (ref \<times> handler) list \<Rightarrow> page \<times> (ref \<times> handler) list" where
  "init_root items d0 root ph =
     (let ph1 = fold attach (root_inputs items root) ph in
      ((fst ph1)\<lparr>boxes := initializeState items d0 (boxes (fst ph1)) root\<rparr>, snd ph1))"

text \<open>\<^verbatim>\<open>_init\<close>, and the constructor.\<close>

definition init :: "li list \<Rightarrow> nat \<Rightarrow> ref list \<Rightarrow> page \<Rightarrow> page \<times> (ref \<times> handler) list" where
  "init items d0 rs pg = fold (init_root items d0) rs (pg, [])"

definition no_elements :: string where
  "no_elements = ''TristateCheckbox: No elements found with the provided selector''"

definition constructor ::
  "li list \<Rightarrow> nat \<Rightarrow> (string \<Rightarrow> exn + ref list) \<Rightarrow> page \<Rightarrow> selector \<Rightarrow> exn + page \<times> tristateCheckbox" where
  "constructor items d0 querySelectorAll pg selector =
     (case getElements querySelectorAll selector of
        Inl e \<Rightarrow> Inl e
      | Inr rs \<Rightarrow>
          if rs = []
          then Inr (pg\<lparr>console := console pg @ [no_elements]\<rparr>,
                    \<lparr>roots = rs, handlers = None\<rparr>)
          else
            let ph = init items d0 rs pg
            in Inr (fst ph, \<lparr>roots = rs, handlers = Some (snd ph)\<rparr>))"

text \<open>
  \<^verbatim>\<open>destroy\<close>: calling \<^verbatim>\<open>forEach\<close> on an absent \<^verbatim>\<open>_handlers\<close> throws a
  \<^verbatim>\<open>TypeError\<close>.
\<close>

definition destroy :: "page \<Rightarrow> tristateCheckbox \<Rightarrow> exn + page \<times> tristateCheckbox" where
  "destroy pg inst =
     (case handlers inst of
        None \<Rightarrow> Inl TypeError
      | Some hs \<Rightarrow>
          Inr (pg\<lparr>listeners := fold (\<lambda>ch ls. remove1 ch ls) hs (listeners pg)\<rparr>,
               inst\<lparr>handlers := Some []\<rparr>))"

text \<open>Dispatching a change event on a checkbox runs the listeners registered on it.\<close>

definition dispatchChange :: "li list \<Rightarrow> page \<Rightarrow> ref \<Rightarrow> page" where
  "dispatchChange items pg checkbox =
     pg\<lparr>boxes := fold (\<lambda>ch st. changeHandler items st (fst ch))
                    (filter (\<lambda>ch. fst ch = checkbox) (listeners pg)) (boxes pg)\<rparr>"

section \<open>The properties\<close>

text \<open>
  The parent-from-children rule in the words of the specification, for a node \<open>n\<close> and
  the state \<open>s\<close>: \<open>n\<close> is checked iff every immediate child is checked and none is
  indeterminate, and \<open>n\<close> is indeterminate iff some immediate child is indeterminate or the
  checked immediate children are some but not all of the children.
\<close>

definition parent_rule :: "li list \<Rightarrow> store \<Rightarrow> ref \<Rightarrow> bool" where
  "parent_rule items s n =
     (let kids = findChildCheckboxes items n in
      (checked (s n) = list_all (\<lambda>c. checked (s c) \<and> \<not> indeterminate (s c)) kids) \<and>
      (indeterminate (s n) =
         (list_ex (\<lambda>c. indeterminate (s c)) kids \<or>
          (list_ex (\<lambda>c. checked (s c)) kids \<and> list_ex (\<lambda>c. \<not> checked (s c)) kids))))"

text \<open>
  The three branches of \<^verbatim>\<open>_updateParentState\<close> written as one value: what the
  parent is set to, given the state of the listed children.
\<close>

definition derived :: "store \<Rightarrow> ref list \<Rightarrow> checkbox" where
  "derived s kids =
     \<lparr>checked = list_all (\<lambda>c. checked (s c) \<and> \<not> indeterminate (s c)) kids,
      indeterminate =
        (list_ex (\<lambda>c. indeterminate (s c)) kids \<or>
         (list_ex (\<lambda>c. checked (s c)) kids \<and> list_ex (\<lambda>c. \<not> checked (s c)) kids))\<rparr>"

text \<open>
  Global consistency: every checkbox of the document that has immediate children satisfies
  the parent-from-children rule.
\<close>

definition consistent :: "li list \<Rightarrow> store \<Rightarrow> bool" where
  "consistent items s =
     list_all (\<lambda>q. findChildCheckboxes items q = [] \<or> parent_rule items s q)
       (root_inputs items [])"

text \<open>A checkbox that is not checked and indeterminate at once.\<close>

definition exclusive :: "checkbox \<Rightarrow> bool" where
  "exclusive b = (\<not> (checked b \<and> indeterminate b))"

section \<open>Example documents\<close>

text \<open>
  The markup of the repository's tests, a parent with two children, and the medium tree of
  the benchmark, a parent with two children that have two and one children.  In \<open>partly\<close>
  the first child of the parent is checked and the parent is indeterminate.
\<close>

definition demo :: "li list" where
  "demo = [LI (Some [LI None, LI None])]"

definition three :: "li list" where
  "three = [LI (Some [LI (Some [LI None, LI None]), LI (Some [LI None])])]"

definition blank :: store where
  "blank = (\<lambda>r. \<lparr>checked = False, indeterminate = False\<rparr>)"

definition partly :: store where
  "partly = blank([0, 0] := \<lparr>checked = True, indeterminate = False\<rparr>,
                  [0] := \<lparr>checked = False, indeterminate = True\<rparr>)"

text \<open>The document of the repository's tests as \<^verbatim>\<open>querySelectorAll\<close> sees it: the
  selector \<^verbatim>\<open>.tristate\<close> matches the outermost list, \<^verbatim>\<open>ul\<close> matches the outermost
  list and the list nested in its item, any other selector matches nothing.\<close>

definition demo_querySelectorAll :: "string \<Rightarrow> exn + ref list" where
  "demo_querySelectorAll str =
     (if str = ''.tristate'' then Inr [ []]
      else if str = ''ul'' then Inr [ [], [0]]
      else Inr [])"

definition page0 :: page where
  "page0 = \<lparr>boxes = blank, listeners = [], console = [], nextHandler = 0\<rparr>"

declare updateAncestorCheckboxes.simps [simp del]
declare updateAncestorCheckboxesT.simps [simp del]
declare depthLoop.simps [simp del]
declare distanceLoop.simps [simp del]

section \<open>Lists\<close>

lemma filter_none: "(filter P xs = []) = (\<not> list_ex P xs)"
  by (simp add: filter_empty_conv list_ex_iff)

lemma filter_fewer: "(length (filter P xs) < length xs) = list_ex (\<lambda>x. \<not> P x) xs"
  by (induction xs) (auto simp: less_Suc_eq_le)

lemma filter_every: "(length (filter P xs) = length xs) = list_all P xs"
proof -
  have "length (filter P xs) + length (filter (\<lambda>x. \<not> P x) xs) = length xs"
    by (rule sum_length_filter_compl)
  then have "(length (filter P xs) = length xs) = (filter (\<lambda>x. \<not> P x) xs = [])"
    by auto
  then show ?thesis
    by (simp add: filter_empty_conv list_all_iff)
qed

lemma fold_assign:
  "fold (\<lambda>c st. st(c := x)) cs s q = (if q \<in> set cs then x else s q)"
  by (induction cs arbitrary: s) auto

lemma fold_fixed:
  "(\<And>u. u \<in> set qs \<Longrightarrow> f u s = s) \<Longrightarrow> fold f qs s = s"
  by (induction qs) simp_all

lemma fold_count_step:
  "fold (count_step s) cs (a, b) =
     (a + length (filter (\<lambda>c. \<not> indeterminate (s c) \<and> checked (s c)) cs),
      b + length (filter (\<lambda>c. indeterminate (s c)) cs))"
  by (induction cs arbitrary: a b) (simp_all add: count_step_def)

lemma insort_key_cong_order:
  assumes "\<And>y. y \<in> set ys \<Longrightarrow> (f x \<le> f y) = (g x \<le> g y)"
  shows "insort_key f x ys = insort_key g x ys"
  using assms by (induction ys) simp_all

lemma sort_key_cong_order:
  assumes "\<And>x y. x \<in> set xs \<Longrightarrow> y \<in> set xs \<Longrightarrow> (f x \<le> f y) = (g x \<le> g y)"
  shows "sort_key f xs = sort_key g xs"
  using assms
proof (induction xs)
  case Nil
  then show ?case by simp
next
  case (Cons x xs)
  then have ih: "sort_key f xs = sort_key g xs" by simp
  have "insort_key f x (sort_key g xs) = insort_key g x (sort_key g xs)"
    using Cons.prems by (intro insort_key_cong_order) simp
  with ih show ?case by simp
qed

lemma strict_prefix_iff: "strict_prefix r q = (\<exists>p. p \<noteq> [] \<and> q = r @ p)"
  by (auto simp: strict_prefix_def prefix_def)

section \<open>References and the markup\<close>

lemma li_at_Cons:
  "li_at items (i # p) =
     (if i < length items
      then (if p = [] then Some (items ! i)
            else (case ul (items ! i) of None \<Rightarrow> None | Some kids \<Rightarrow> li_at kids p))
      else None)"
  by (cases p) (auto split: option.splits)

lemma li_at_shift: "li_at (x # xs) (Suc j # p) = li_at xs (j # p)"
  by (simp add: li_at_Cons)

lemma li_at_zero:
  "li_at (x # xs) (0 # p) =
     (if p = [] then Some x else (case ul x of None \<Rightarrow> None | Some kids \<Rightarrow> li_at kids p))"
  by (simp add: li_at_Cons)

lemma li_at_append:
  "r \<noteq> [] \<Longrightarrow> p \<noteq> [] \<Longrightarrow>
   li_at items (r @ p) =
     (case li_at items r of
        None \<Rightarrow> None
      | Some l \<Rightarrow> (case ul l of None \<Rightarrow> None | Some kids \<Rightarrow> li_at kids p))"
proof (induction r arbitrary: items)
  case Nil
  then show ?case by simp
next
  case (Cons i r)
  show ?case
  proof (cases "r = []")
    case True
    with Cons.prems show ?thesis by (simp add: li_at_Cons)
  next
    case False
    with Cons show ?thesis
      by (auto simp: li_at_Cons split: option.splits)
  qed
qed

lemma li_at_prefix:
  assumes "li_at items (r @ p) \<noteq> None" and "r \<noteq> []"
  shows "li_at items r \<noteq> None"
proof (cases "p = []")
  case True
  with assms show ?thesis by simp
next
  case False
  with assms show ?thesis by (auto simp: li_at_append split: option.splits)
qed

lemma list_at_append:
  assumes "list_at items r = Some kids" and "p \<noteq> []"
  shows "li_at items (r @ p) = li_at kids p"
proof (cases "r = []")
  case True
  with assms show ?thesis by (simp add: list_at_def)
next
  case False
  with assms show ?thesis
    by (auto simp: list_at_def li_at_append split: option.splits)
qed

lemma list_at_none:
  assumes "list_at items r = None" and "p \<noteq> []"
  shows "li_at items (r @ p) = None"
proof -
  from assms have "r \<noteq> []" by (auto simp: list_at_def split: if_splits)
  with assms show ?thesis
    by (auto simp: list_at_def li_at_append split: option.splits)
qed

lemma owns_list_shift: "owns_list (x # xs) (Suc j # p) = owns_list xs (j # p)"
  by (simp add: owns_list_def li_at_shift)

lemma owns_list_zero:
  "owns_list (x # xs) (0 # p) =
     (if p = [] then ul x \<noteq> None
      else (case ul x of None \<Rightarrow> False | Some kids \<Rightarrow> owns_list kids p))"
  by (simp add: owns_list_def li_at_zero split: option.splits)

lemma owns_list_Nil: "\<not> owns_list xs []" "\<not> owns_list [] p"
  by (cases p; simp add: owns_list_def li_at_Cons)+

lemma inputs_mem:
  "(q \<in> set (inputs_li r l)) =
     (q = r \<or> (\<exists>kids p. ul l = Some kids \<and> q = r @ p \<and> li_at kids p \<noteq> None))"
  "(q \<in> set (inputs_ul r i xs)) =
     (\<exists>j p. q = r @ (i + j) # p \<and> li_at xs (j # p) \<noteq> None)"
proof (induction r l and r i xs arbitrary: q and q rule: inputs_li_inputs_ul.induct)
  case (1 r)
  then show ?case by simp
next
  case (2 r kids)
  have "(\<exists>j p. q = r @ (0 + j) # p \<and> li_at kids (j # p) \<noteq> None)
      = (\<exists>p. q = r @ p \<and> li_at kids p \<noteq> None)"  (is "?L = ?R")
  proof
    assume ?L then show ?R by auto
  next
    assume ?R
    then obtain p where p: "q = r @ p" "li_at kids p \<noteq> None" by auto
    then obtain j p' where "p = j # p'" by (cases p) auto
    with p show ?L by auto
  qed
  with 2 show ?case by simp
next
  case (3 r i)
  then show ?case by (simp add: li_at_Cons)
next
  case (4 r i x xs)
  show ?case (is "?L = ?R")
  proof
    assume ?L
    then consider "q \<in> set (inputs_li (r @ [i]) x)" | "q \<in> set (inputs_ul r (Suc i) xs)"
      by auto
    then show ?R
    proof cases
      case 1
      then have "q = r @ [i] \<or> (\<exists>kids p. ul x = Some kids \<and> q = (r @ [i]) @ p \<and> li_at kids p \<noteq> None)"
        by (simp only: 4)
      then show ?thesis
      proof
        assume "q = r @ [i]"
        then have "q = r @ (i + 0) # [] \<and> li_at (x # xs) (0 # []) \<noteq> None" by simp
        then show ?thesis by blast
      next
        assume "\<exists>kids p. ul x = Some kids \<and> q = (r @ [i]) @ p \<and> li_at kids p \<noteq> None"
        then obtain kids p where k: "ul x = Some kids" "q = (r @ [i]) @ p" "li_at kids p \<noteq> None"
          by blast
        then have "p \<noteq> []" by auto
        with k have "q = r @ (i + 0) # p \<and> li_at (x # xs) (0 # p) \<noteq> None"
          by (simp add: li_at_zero)
        then show ?thesis by blast
      qed
    next
      case 2
      then obtain j p where "q = r @ (Suc i + j) # p" "li_at xs (j # p) \<noteq> None"
        by (auto simp only: 4)
      then have "q = r @ (i + Suc j) # p \<and> li_at (x # xs) (Suc j # p) \<noteq> None"
        by (simp add: li_at_shift)
      then show ?thesis by blast
    qed
  next
    assume ?R
    then obtain j p where jp: "q = r @ (i + j) # p" "li_at (x # xs) (j # p) \<noteq> None"
      by blast
    show ?L
    proof (cases j)
      case 0
      have "q \<in> set (inputs_li (r @ [i]) x)"
      proof (cases "p = []")
        case True
        with jp 0 show ?thesis by (simp add: 4)
      next
        case False
        with jp 0 obtain kids where "ul x = Some kids" "li_at kids p \<noteq> None"
          by (auto simp: li_at_zero split: option.splits)
        moreover have "q = (r @ [i]) @ p" using jp 0 by simp
        ultimately show ?thesis by (simp only: 4) blast
      qed
      then show ?thesis by simp
    next
      case (Suc j')
      with jp have "q = r @ (Suc i + j') # p" "li_at xs (j' # p) \<noteq> None"
        by (simp_all add: li_at_shift)
      then have "q \<in> set (inputs_ul r (Suc i) xs)"
        by (simp only: 4) blast
      then show ?thesis by simp
    qed
  qed
qed

lemma inputs_ul_iff:
  "(q \<in> set (inputs_ul r 0 kids)) = (\<exists>p. q = r @ p \<and> li_at kids p \<noteq> None)"
proof -
  have "(\<exists>j p. q = r @ (0 + j) # p \<and> li_at kids (j # p) \<noteq> None)
      = (\<exists>p. q = r @ p \<and> li_at kids p \<noteq> None)"  (is "?L = ?R")
  proof
    assume ?L then show ?R by auto
  next
    assume ?R
    then obtain p where p: "q = r @ p" "li_at kids p \<noteq> None" by auto
    then obtain j p' where "p = j # p'" by (cases p) auto
    with p show ?L by auto
  qed
  then show ?thesis by (simp only: inputs_mem)
qed

lemma uls_mem:
  "(q \<in> set (uls_li r l)) =
     (\<exists>kids. ul l = Some kids \<and> (q = r \<or> (\<exists>p. q = r @ p \<and> owns_list kids p)))"
  "(q \<in> set (uls_ul r i xs)) =
     (\<exists>j p. q = r @ (i + j) # p \<and> owns_list xs (j # p))"
proof (induction r l and r i xs arbitrary: q and q rule: uls_li_uls_ul.induct)
  case (1 r)
  then show ?case by simp
next
  case (2 r kids)
  have "(\<exists>j p. q = r @ (0 + j) # p \<and> owns_list kids (j # p))
      = (\<exists>p. q = r @ p \<and> owns_list kids p)"  (is "?L = ?R")
  proof
    assume ?L then show ?R by auto
  next
    assume ?R
    then obtain p where p: "q = r @ p" "owns_list kids p" by auto
    then obtain j p' where "p = j # p'" by (cases p) (auto simp: owns_list_Nil)
    with p show ?L by auto
  qed
  with 2 show ?case by simp
next
  case (3 r i)
  then show ?case by (simp add: owns_list_Nil)
next
  case (4 r i x xs)
  show ?case (is "?L = ?R")
  proof
    assume ?L
    then consider "q \<in> set (uls_li (r @ [i]) x)" | "q \<in> set (uls_ul r (Suc i) xs)"
      by auto
    then show ?R
    proof cases
      case 1
      then obtain kids where k: "ul x = Some kids"
        and d: "q = r @ [i] \<or> (\<exists>p. q = (r @ [i]) @ p \<and> owns_list kids p)"
        by (auto simp only: 4)
      from d show ?thesis
      proof
        assume "q = r @ [i]"
        with k have "q = r @ (i + 0) # [] \<and> owns_list (x # xs) (0 # [])"
          by (simp add: owns_list_zero)
        then show ?thesis by blast
      next
        assume "\<exists>p. q = (r @ [i]) @ p \<and> owns_list kids p"
        then obtain p where p: "q = (r @ [i]) @ p" "owns_list kids p"
          by blast
        then have "p \<noteq> []" by (auto simp: owns_list_Nil)
        with k p have "q = r @ (i + 0) # p \<and> owns_list (x # xs) (0 # p)"
          by (simp add: owns_list_zero)
        then show ?thesis by blast
      qed
    next
      case 2
      then obtain j p where "q = r @ (Suc i + j) # p" "owns_list xs (j # p)"
        by (auto simp only: 4)
      then have "q = r @ (i + Suc j) # p \<and> owns_list (x # xs) (Suc j # p)"
        by (simp add: owns_list_shift)
      then show ?thesis by blast
    qed
  next
    assume ?R
    then obtain j p where jp: "q = r @ (i + j) # p" "owns_list (x # xs) (j # p)"
      by blast
    show ?L
    proof (cases j)
      case 0
      have "q \<in> set (uls_li (r @ [i]) x)"
      proof (cases "p = []")
        case True
        with jp 0 show ?thesis by (auto simp add: 4 owns_list_zero)
      next
        case False
        with jp 0 obtain kids where "ul x = Some kids" "owns_list kids p"
          by (auto simp: owns_list_zero split: option.splits)
        moreover have "q = (r @ [i]) @ p" using jp 0 by simp
        ultimately show ?thesis by (simp only: 4) blast
      qed
      then show ?thesis by simp
    next
      case (Suc j')
      with jp have "q = r @ (Suc i + j') # p" "owns_list xs (j' # p)"
        by (simp_all add: owns_list_shift)
      then have "q \<in> set (uls_ul r (Suc i) xs)"
        by (simp only: 4) blast
      then show ?thesis by simp
    qed
  qed
qed

lemma uls_ul_iff:
  "(q \<in> set (uls_ul r 0 kids)) = (\<exists>p. q = r @ p \<and> owns_list kids p)"
proof -
  have "(\<exists>j p. q = r @ (0 + j) # p \<and> owns_list kids (j # p))
      = (\<exists>p. q = r @ p \<and> owns_list kids p)"  (is "?L = ?R")
  proof
    assume ?L then show ?R by auto
  next
    assume ?R
    then obtain p where p: "q = r @ p" "owns_list kids p" by auto
    then obtain j p' where "p = j # p'" by (cases p) (auto simp: owns_list_Nil)
    with p show ?L by auto
  qed
  then show ?thesis by (simp only: uls_mem)
qed

lemma root_inputs_iff:
  "(q \<in> set (root_inputs items r)) = (strict_prefix r q \<and> li_at items q \<noteq> None)"
proof (cases "list_at items r")
  case None
  have "\<not> (strict_prefix r q \<and> li_at items q \<noteq> None)"
  proof
    assume a: "strict_prefix r q \<and> li_at items q \<noteq> None"
    then obtain p where "p \<noteq> []" "q = r @ p" by (auto simp only: strict_prefix_iff)
    with None a show False by (simp add: list_at_none)
  qed
  with None show ?thesis by (simp add: root_inputs_def)
next
  case (Some kids)
  have "(\<exists>p. q = r @ p \<and> li_at kids p \<noteq> None) = (strict_prefix r q \<and> li_at items q \<noteq> None)"
    (is "?L = ?R")
  proof
    assume ?L
    then obtain p where p: "q = r @ p" "li_at kids p \<noteq> None" by blast
    then have "p \<noteq> []" by auto
    with p Some show ?R
      by (auto simp: list_at_append strict_prefix_def)
  next
    assume ?R
    then obtain p where p: "q = r @ p" "p \<noteq> []" "li_at items q \<noteq> None"
      by (auto simp: strict_prefix_def prefix_def)
    with Some have "li_at kids p \<noteq> None" by (simp add: list_at_append)
    with p show ?L by blast
  qed
  with Some show ?thesis by (simp add: root_inputs_def inputs_ul_iff)
qed

lemma root_uls_iff:
  "(q \<in> set (root_uls items r)) = (strict_prefix r q \<and> owns_list items q)"
proof (cases "list_at items r")
  case None
  have "\<not> (strict_prefix r q \<and> owns_list items q)"
  proof
    assume a: "strict_prefix r q \<and> owns_list items q"
    then obtain p where "p \<noteq> []" "q = r @ p" by (auto simp only: strict_prefix_iff)
    with None a show False by (simp add: list_at_none owns_list_def)
  qed
  with None show ?thesis by (simp add: root_uls_def)
next
  case (Some kids)
  have "(\<exists>p. q = r @ p \<and> owns_list kids p) = (strict_prefix r q \<and> owns_list items q)"
    (is "?L = ?R")
  proof
    assume ?L
    then obtain p where p: "q = r @ p" "owns_list kids p" by blast
    then have "p \<noteq> []" by (auto simp: owns_list_Nil)
    with p Some show ?R
      by (auto simp: list_at_append strict_prefix_def owns_list_def)
  next
    assume ?R
    then obtain p where p: "q = r @ p" "p \<noteq> []" "owns_list items q"
      by (auto simp: strict_prefix_def prefix_def)
    with Some have "owns_list kids p" by (simp add: list_at_append owns_list_def)
    with p show ?L by blast
  qed
  with Some show ?thesis by (simp add: root_uls_def uls_ul_iff)
qed

lemma findChildCheckboxes_mem:
  "(c \<in> set (findChildCheckboxes items n)) =
     (n \<noteq> [] \<and> li_at items c \<noteq> None \<and> (\<exists>i. c = n @ [i]))"
proof (cases "n = []")
  case True
  then show ?thesis by (simp add: findChildCheckboxes_def)
next
  case False
  show ?thesis
  proof (cases "list_at items n")
    case None
    then have "\<And>i. li_at items (n @ [i]) = None"
      by (simp add: list_at_none)
    moreover have "findChildCheckboxes items n = []"
      using None False by (auto simp: findChildCheckboxes_def list_at_def split: option.splits)
    ultimately show ?thesis by auto
  next
    case (Some kids)
    then have "\<And>i. li_at items (n @ [i]) = li_at kids [i]"
      by (simp add: list_at_append)
    moreover have "findChildCheckboxes items n = map (\<lambda>i. n @ [i]) [0..<length kids]"
      using Some False by (auto simp: findChildCheckboxes_def list_at_def split: option.splits)
    ultimately show ?thesis using False by (auto split: if_splits)
  qed
qed

lemma child_not_parent: "c \<in> set (findChildCheckboxes items n) \<Longrightarrow> c \<noteq> n"
  by (auto simp: findChildCheckboxes_def split: option.splits)

lemma owns_list_children:
  "findChildCheckboxes items q \<noteq> [] \<Longrightarrow> owns_list items q"
  by (auto simp: findChildCheckboxes_def owns_list_def split: option.splits)

lemma butlast_has_children:
  assumes "li_at items c \<noteq> None" and "2 \<le> length c"
  shows "c \<in> set (findChildCheckboxes items (butlast c))"
proof -
  from assms(2) have "c \<noteq> []" "butlast c \<noteq> []" by (auto simp: butlast_conv_take)
  moreover from \<open>c \<noteq> []\<close> have "c = butlast c @ [last c]" by simp
  ultimately show ?thesis using assms(1)
    by (subst findChildCheckboxes_mem) blast
qed

lemma findParentCheckbox_Some:
  "findParentCheckbox items c = Some p \<Longrightarrow> p = butlast c \<and> 2 \<le> length c \<and> li_at items c \<noteq> None"
  by (auto simp: findParentCheckbox_def split: option.splits if_splits)

section \<open>The recomputation\<close>

lemma updateParentState_eq:
  "updateParentState items s n =
     (if findChildCheckboxes items n = [] then s
      else s(n := derived s (findChildCheckboxes items n)))"
proof (cases "findChildCheckboxes items n = []")
  case True
  then show ?thesis by (simp add: updateParentState_def)
next
  case False
  let ?kids = "findChildCheckboxes items n"
  let ?ic = "length (filter (\<lambda>c. indeterminate (s c)) ?kids)"
  let ?cc = "length (filter (\<lambda>c. \<not> indeterminate (s c) \<and> checked (s c)) ?kids)"
  show ?thesis
  proof (cases "list_ex (\<lambda>c. indeterminate (s c)) ?kids")
    case True
    then have "0 < ?ic" by (simp add: filter_none)
    moreover have "derived s ?kids = \<lparr>checked = False, indeterminate = True\<rparr>"
      using True by (auto simp: derived_def list_all_iff list_ex_iff)
    ultimately show ?thesis using False
      by (simp add: updateParentState_def Let_def fold_count_step)
  next
    case noind: False
    then have ic0: "?ic = 0" by (simp add: filter_none)
    have same: "filter (\<lambda>c. \<not> indeterminate (s c) \<and> checked (s c)) ?kids
        = filter (\<lambda>c. checked (s c)) ?kids"
      using noind by (auto simp: list_ex_iff intro: filter_cong)
    have cc: "?cc = length (filter (\<lambda>c. checked (s c)) ?kids)" by (simp only: same)
    have d: "derived s ?kids =
        \<lparr>checked = list_all (\<lambda>c. checked (s c)) ?kids,
         indeterminate = (list_ex (\<lambda>c. checked (s c)) ?kids
            \<and> list_ex (\<lambda>c. \<not> checked (s c)) ?kids)\<rparr>"
      using noind by (auto simp: derived_def list_all_iff list_ex_iff)
    have p1: "(0 < ?cc) = list_ex (\<lambda>c. checked (s c)) ?kids"
      unfolding cc by (simp add: filter_none)
    have p2: "(?cc < length ?kids) = list_ex (\<lambda>c. \<not> checked (s c)) ?kids"
      unfolding cc by (rule filter_fewer)
    have p3: "(?cc = length ?kids) = list_all (\<lambda>c. checked (s c)) ?kids"
      unfolding cc by (rule filter_every)
    have p4: "list_all (\<lambda>c. checked (s c)) ?kids
        \<Longrightarrow> \<not> list_ex (\<lambda>c. \<not> checked (s c)) ?kids"
      by (auto simp: list_all_iff list_ex_iff)
    have p5: "\<not> list_all (\<lambda>c. checked (s c)) ?kids
        \<Longrightarrow> list_ex (\<lambda>c. \<not> checked (s c)) ?kids"
      by (auto simp: list_all_iff list_ex_iff)
    show ?thesis
      using False ic0 p4 p5
      by (auto simp: updateParentState_def Let_def fold_count_step d p1 p2 p3
          simp del: length_greater_0_conv)
  qed
qed

lemma updateParentState_other: "q \<noteq> n \<Longrightarrow> updateParentState items s n q = s q"
  by (simp add: updateParentState_eq)

lemma updateParentState_noop:
  "findChildCheckboxes items q = [] \<Longrightarrow> updateParentState items s q = s"
  by (simp add: updateParentState_eq)

lemma parent_rule_iff:
  "parent_rule items s n = (s n = derived s (findChildCheckboxes items n))"
  by (cases "s n") (auto simp: parent_rule_def derived_def Let_def)

lemma derived_cong:
  "(\<And>c. c \<in> set kids \<Longrightarrow> s c = s' c) \<Longrightarrow> derived s kids = derived s' kids"
  by (simp add: derived_def list_all_iff list_ex_iff)

lemma parent_rule_cong:
  assumes "s n = s' n" and "\<And>c. c \<in> set (findChildCheckboxes items n) \<Longrightarrow> s c = s' c"
  shows "parent_rule items s n = parent_rule items s' n"
  using assms derived_cong[of "findChildCheckboxes items n" s s']
  by (simp add: parent_rule_iff)

lemma updateParentState_rule:
  assumes "findChildCheckboxes items n \<noteq> []"
  shows "parent_rule items (updateParentState items s n) n"
proof -
  let ?kids = "findChildCheckboxes items n"
  let ?s' = "updateParentState items s n"
  have "\<And>c. c \<in> set ?kids \<Longrightarrow> ?s' c = s c"
    using child_not_parent by (simp add: updateParentState_other)
  then have "derived ?s' ?kids = derived s ?kids"
    by (rule derived_cong)
  moreover have "?s' n = derived s ?kids"
    using assms by (simp add: updateParentState_eq)
  ultimately show ?thesis
    by (simp add: parent_rule_iff)
qed

lemma updateParentState_fixed:
  "parent_rule items s n \<Longrightarrow> updateParentState items s n = s"
  by (auto simp: updateParentState_eq parent_rule_iff)

lemma parent_rule_forced:
  assumes "findChildCheckboxes items q \<noteq> []"
    and "\<And>c. c \<in> set (findChildCheckboxes items q) \<Longrightarrow> s c = \<lparr>checked = v, indeterminate = False\<rparr>"
  shows "parent_rule items s q = (s q = \<lparr>checked = v, indeterminate = False\<rparr>)"
proof -
  let ?kids = "findChildCheckboxes items q"
  from assms(1) obtain k where "k \<in> set ?kids" by (cases ?kids) auto
  with assms(2) have "derived s ?kids = \<lparr>checked = v, indeterminate = False\<rparr>"
    by (auto simp: derived_def list_all_iff list_ex_iff)
  then show ?thesis by (simp add: parent_rule_iff)
qed

lemma consistent_iff:
  "consistent items s = (\<forall>q. findChildCheckboxes items q \<noteq> [] \<longrightarrow> parent_rule items s q)"
proof -
  have "\<And>q. findChildCheckboxes items q \<noteq> [] \<Longrightarrow> q \<in> set (root_inputs items [])"
  proof -
    fix q assume "findChildCheckboxes items q \<noteq> []"
    then have "li_at items q \<noteq> None"
      by (auto simp: findChildCheckboxes_def split: option.splits)
    moreover from this have "q \<noteq> []" by auto
    ultimately show "q \<in> set (root_inputs items [])"
      by (simp add: root_inputs_iff strict_prefix_iff)
  qed
  then show ?thesis
    unfolding consistent_def list_all_iff by blast
qed

section \<open>The two propagations\<close>

lemma setChildCheckboxes_eq:
  "setChildCheckboxes items s n v =
     fold (\<lambda>c st. st(c := \<lparr>checked = v, indeterminate = False\<rparr>)) 
       (if n = [] then [] else root_inputs items n) s"
  by (auto simp: setChildCheckboxes_def root_inputs_def list_at_def split: option.splits)

lemma setChildCheckboxes_apply:
  "setChildCheckboxes items s n v q =
     (if n \<noteq> [] \<and> strict_prefix n q \<and> li_at items q \<noteq> None
      then \<lparr>checked = v, indeterminate = False\<rparr> else s q)"
  by (auto simp: setChildCheckboxes_eq fold_assign root_inputs_iff)

lemma updateAncestorCheckboxes_other:
  "\<not> strict_prefix q c \<Longrightarrow> updateAncestorCheckboxes items s c q = s q"
proof (induction items s c rule: updateAncestorCheckboxes.induct)
  case (1 items s c)
  show ?case
  proof (cases "findParentCheckbox items c")
    case None
    then show ?thesis by (simp add: updateAncestorCheckboxes.simps)
  next
    case (Some parent)
    then have p: "parent = butlast c" "c \<noteq> []"
      by (auto dest: findParentCheckbox_Some)
    then have "strict_prefix parent c"
      by (metis strict_prefixI' snoc_eq_iff_butlast)
    with 1(2) have "\<not> strict_prefix q parent" "q \<noteq> parent"
      by (auto dest: prefix_order.less_trans)
    then show ?thesis
      using 1(1)[OF Some] Some
      by (simp add: updateAncestorCheckboxes.simps updateParentState_other)
  qed
qed

lemma updateAncestorCheckboxes_rule:
  assumes "li_at items c \<noteq> None" and "strict_prefix q c" and "q \<noteq> []"
  shows "parent_rule items (updateAncestorCheckboxes items s c) q"
  using assms
proof (induction items s c rule: updateAncestorCheckboxes.induct)
  case (1 items s c)
  show ?case
  proof (cases "findParentCheckbox items c")
    case None
    with 1(2) have "length c \<le> 1"
      by (auto simp: findParentCheckbox_def split: option.splits if_splits)
    moreover from 1(3) obtain p where "p \<noteq> []" "c = q @ p"
      by (auto simp only: strict_prefix_iff)
    with 1(4) have "2 \<le> length c"
      by (cases q; cases p) auto
    ultimately have False by simp
    then show ?thesis ..
  next
    case (Some parent)
    then have p: "parent = butlast c" "2 \<le> length c"
      by (auto dest: findParentCheckbox_Some)
    then have c: "c = parent @ [last c]" by (cases c) auto
    let ?s1 = "updateParentState items s parent"
    have fin: "updateAncestorCheckboxes items s c = updateAncestorCheckboxes items ?s1 parent"
      using Some by (subst updateAncestorCheckboxes.simps) simp
    have kid: "c \<in> set (findChildCheckboxes items parent)"
      using butlast_has_children[OF 1(2) p(2)] p(1) by simp
    then have "parent \<noteq> []"
      by (simp add: findChildCheckboxes_mem)
    with 1(2) c have pv: "li_at items parent \<noteq> None"
      using li_at_prefix[of items parent "[last c]"] by simp
    from 1(3) c have "prefix q parent"
      by (metis prefix_snoc strict_prefix_def)
    then consider "q = parent" | "strict_prefix q parent"
      by (auto simp: strict_prefix_def)
    then show ?thesis
    proof cases
      case 1
      have "parent_rule items ?s1 parent"
        using kid by (intro updateParentState_rule) auto
      moreover have "updateAncestorCheckboxes items ?s1 parent parent = ?s1 parent"
        by (simp add: updateAncestorCheckboxes_other)
      moreover have "\<And>k. k \<in> set (findChildCheckboxes items parent)
          \<Longrightarrow> updateAncestorCheckboxes items ?s1 parent k = ?s1 k"
        by (rule updateAncestorCheckboxes_other)
           (auto simp: findChildCheckboxes_mem strict_prefix_iff)
      ultimately have "parent_rule items (updateAncestorCheckboxes items ?s1 parent) parent"
        using parent_rule_cong[of "updateAncestorCheckboxes items ?s1 parent" parent ?s1 items]
        by simp
      with 1 fin show ?thesis by simp
    next
      case 2
      then show ?thesis
        using "1.IH"[OF Some pv(1) 2 "1.prems"(3)] fin by simp
    qed
  qed
qed

lemma changeHandler_frame:
  assumes "\<not> strict_prefix n q" and "\<not> strict_prefix q n"
  shows "changeHandler items s n q = s q"
  using assms
  by (simp add: changeHandler_def Let_def updateAncestorCheckboxes_other
      setChildCheckboxes_apply)

lemma changeHandler_descendant:
  assumes "n \<noteq> []" and "strict_prefix n d" and "li_at items d \<noteq> None"
  shows "changeHandler items s n d = \<lparr>checked = checked (s n), indeterminate = False\<rparr>"
proof -
  from assms(2) have "\<not> strict_prefix d n"
    by (auto simp: strict_prefix_def)
  then show ?thesis using assms
    by (simp add: changeHandler_def Let_def updateAncestorCheckboxes_other
        setChildCheckboxes_apply)
qed

lemma changeHandler_ancestor:
  assumes "li_at items n \<noteq> None" and "strict_prefix q n" and "q \<noteq> []"
  shows "parent_rule items (changeHandler items s n) q"
  using assms by (simp add: changeHandler_def Let_def updateAncestorCheckboxes_rule)

lemma changeHandler_descendant_rule:
  assumes "n \<noteq> []" and "strict_prefix n q" and "findChildCheckboxes items q \<noteq> []"
  shows "parent_rule items (changeHandler items s n) q"
proof -
  let ?f = "\<lparr>checked = checked (s n), indeterminate = False\<rparr>"
  from assms(3) have qv: "li_at items q \<noteq> None"
    by (auto simp: findChildCheckboxes_def split: option.splits)
  have "\<And>c. c \<in> set (findChildCheckboxes items q) \<Longrightarrow> changeHandler items s n c = ?f"
  proof -
    fix c assume "c \<in> set (findChildCheckboxes items q)"
    then obtain i where "c = q @ [i]" "li_at items c \<noteq> None"
      by (auto simp: findChildCheckboxes_mem)
    moreover from this assms(2) have "strict_prefix n c"
      by (metis prefix_order.less_le_trans prefixI)
    ultimately show "changeHandler items s n c = ?f"
      using assms(1) by (simp add: changeHandler_descendant)
  qed
  moreover have "changeHandler items s n q = ?f"
    using assms(1,2) qv by (rule changeHandler_descendant)
  ultimately show ?thesis
    using assms(3) by (simp add: parent_rule_forced)
qed

lemma changeHandler_self_rule:
  assumes "n \<noteq> []" and "findChildCheckboxes items n \<noteq> []"
  shows "parent_rule items (changeHandler items s n) n = (\<not> indeterminate (s n))"
proof -
  let ?f = "\<lparr>checked = checked (s n), indeterminate = False\<rparr>"
  have "\<And>c. c \<in> set (findChildCheckboxes items n) \<Longrightarrow> changeHandler items s n c = ?f"
  proof -
    fix c assume "c \<in> set (findChildCheckboxes items n)"
    then obtain i where c: "c = n @ [i]" "li_at items c \<noteq> None"
      by (auto simp: findChildCheckboxes_mem)
    then have "strict_prefix n c" by (simp add: strict_prefix_iff)
    then show "changeHandler items s n c = ?f"
      using assms(1) c(2) by (intro changeHandler_descendant)
  qed
  moreover have "changeHandler items s n n = s n"
    by (simp add: changeHandler_frame)
  ultimately have "parent_rule items (changeHandler items s n) n = (s n = ?f)"
    using assms(2) by (simp add: parent_rule_forced)
  then show ?thesis by (cases "s n") auto
qed

lemma changeHandler_unrelated_rule:
  assumes "\<not> prefix n q" and "\<not> strict_prefix q n"
  shows "parent_rule items (changeHandler items s n) q = parent_rule items s q"
proof (rule parent_rule_cong)
  show "changeHandler items s n q = s q"
    using assms by (intro changeHandler_frame) (auto simp: strict_prefix_def)
next
  fix c assume "c \<in> set (findChildCheckboxes items q)"
  then obtain i where c: "c = q @ [i]"
    by (auto simp: findChildCheckboxes_mem)
  have "\<not> strict_prefix n c"
    using assms(1) c by (metis prefix_snoc strict_prefix_def)
  moreover have "\<not> strict_prefix c n"
    using assms(2) c
    by (metis prefix_order.dual_order.strict_trans strict_prefixI' append_Nil2 append.assoc)
  ultimately show "changeHandler items s n c = s c"
    by (rule changeHandler_frame)
qed

lemma onToggle_self:
  "onToggle items s n v n = \<lparr>checked = v, indeterminate = False\<rparr>"
  by (simp add: onToggle_def changeHandler_frame userActivation_def)

lemma userActivation_rule:
  assumes "q \<noteq> n" and "n \<notin> set (findChildCheckboxes items q)"
  shows "parent_rule items (userActivation s n v) q = parent_rule items s q"
proof (rule parent_rule_cong)
  show "userActivation s n v q = s q"
    using assms(1) by (simp add: userActivation_def)
next
  fix c assume "c \<in> set (findChildCheckboxes items q)"
  with assms(2) have "c \<noteq> n" by auto
  then show "userActivation s n v c = s c"
    by (simp add: userActivation_def)
qed

lemma changeHandler_no_item:
  assumes "li_at items n = None"
  shows "changeHandler items s n = s"
proof -
  from assms have "findParentCheckbox items n = None"
    by (simp add: findParentCheckbox_def)
  then have "updateAncestorCheckboxes items s n = s"
    by (subst updateAncestorCheckboxes.simps) simp
  moreover from assms have "setChildCheckboxes items s n (checked (s n)) = s"
    by (simp add: setChildCheckboxes_def)
  ultimately show ?thesis
    by (simp add: changeHandler_def Let_def)
qed

section \<open>The log\<close>

lemma fold_forced:
  "fold (\<lambda>c sl'. ((fst sl')(c := x), snd sl' @ [Forced c v])) cs sl
     = (fold (\<lambda>c st. st(c := x)) cs (fst sl), snd sl @ map (\<lambda>c. Forced c v) cs)"
  by (induction cs arbitrary: sl) simp_all

lemma setChildCheckboxesT_eq:
  "setChildCheckboxesT items (s, l) n v =
     (setChildCheckboxes items s n v,
      l @ map (\<lambda>c. Forced c v) (if n = [] then [] else root_inputs items n))"
  by (auto simp: setChildCheckboxesT_def setChildCheckboxes_def fold_forced root_inputs_def
      list_at_def split: option.splits)

lemma ancestors_step:
  assumes "2 \<le> length c"
  shows "ancestors c = butlast c # ancestors (butlast c)"
proof -
  from assms obtain m where m: "length c = Suc (Suc m)"
    by (metis Suc_le_D numeral_2_eq_2 Suc_le_mono)
  have "\<And>k. k \<in> set (rev [1..<Suc m]) \<Longrightarrow> take k (butlast c) = take k c"
    using m by (auto simp add: butlast_conv_take min_def)
  then have "map (\<lambda>k. take k (butlast c)) (rev [1..<Suc m]) = map (\<lambda>k. take k c) (rev [1..<Suc m])"
    by (intro map_cong) auto
  then show ?thesis
    using m by (simp add: ancestors_def butlast_conv_take)
qed

lemma ancestors_short: "length c \<le> 1 \<Longrightarrow> ancestors c = []"
  by (simp add: ancestors_def)

lemma updateAncestorCheckboxesT_eq:
  "updateAncestorCheckboxesT items (s, l) c =
     (updateAncestorCheckboxes items s c,
      l @ map Recomputed (if li_at items c = None then [] else ancestors c))"
proof (induction items "(s, l)" c arbitrary: s l rule: updateAncestorCheckboxesT.induct)
  case (1 items c)
  show ?case
  proof (cases "findParentCheckbox items c")
    case None
    then have "li_at items c = None \<or> length c \<le> 1"
      by (auto simp: findParentCheckbox_def split: option.splits if_splits)
    then have "(if li_at items c = None then [] else ancestors c) = []"
      by (auto simp: ancestors_short)
    with None show ?thesis
      by (simp add: updateAncestorCheckboxesT.simps updateAncestorCheckboxes.simps)
  next
    case (Some parent)
    then have p: "parent = butlast c" "2 \<le> length c" "li_at items c \<noteq> None"
      by (auto dest: findParentCheckbox_Some)
    have "c \<in> set (findChildCheckboxes items parent)"
      using butlast_has_children[OF p(3) p(2)] p(1) by simp
    then have "parent \<noteq> []" by (simp add: findChildCheckboxes_mem)
    moreover have "c = parent @ [last c]" using p by (cases c) auto
    ultimately have pv: "li_at items parent \<noteq> None"
      using p(3) li_at_prefix[of items parent "[last c]"] by simp
    have anc: "ancestors c = parent # ancestors parent"
      using ancestors_step[OF p(2)] p(1) by simp
    show ?thesis
      using Some "1"[OF Some] pv p(3) anc
      by (simp add: updateAncestorCheckboxesT.simps[of items "(s, l)" c]
          updateAncestorCheckboxes.simps[of items s c])
  qed
qed

lemma changeHandlerT_eq:
  assumes "li_at items n \<noteq> None"
  shows "changeHandlerT items s n =
     (changeHandler items s n,
      map (\<lambda>d. Forced d (checked (s n))) (root_inputs items n) @ map Recomputed (ancestors n))"
proof -
  from assms have "n \<noteq> []" by auto
  with assms show ?thesis
    by (auto simp: changeHandlerT_def changeHandler_def Let_def setChildCheckboxesT_eq
        updateAncestorCheckboxesT_eq)
qed

lemma ancestors_set: "set (ancestors n) = {a. a \<noteq> [] \<and> strict_prefix a n}"
proof -
  have "\<And>a. (a \<noteq> [] \<and> strict_prefix a n) = (\<exists>k. 1 \<le> k \<and> k < length n \<and> a = take k n)"
  proof
    fix a assume a: "a \<noteq> [] \<and> strict_prefix a n"
    then obtain p where p: "p \<noteq> []" "n = a @ p" by (auto simp: strict_prefix_iff)
    then have "1 \<le> length a \<and> length a < length n \<and> a = take (length a) n"
      using a by (cases a) auto
    then show "\<exists>k. 1 \<le> k \<and> k < length n \<and> a = take k n" by blast
  next
    fix a assume "\<exists>k. 1 \<le> k \<and> k < length n \<and> a = take k n"
    then obtain k where k: "1 \<le> k" "k < length n" "a = take k n" by blast
    then have "n = a @ drop k n" "drop k n \<noteq> []" by auto
    then have "strict_prefix a n" by (metis strict_prefix_iff)
    moreover have "a \<noteq> []" using k by auto
    ultimately show "a \<noteq> [] \<and> strict_prefix a n" by simp
  qed
  then show ?thesis by (auto simp: ancestors_def)
qed

lemma ancestors_lengths: "map length (ancestors n) = rev [1..<length n]"
proof -
  have "map (\<lambda>k. length (take k n)) (rev [1..<length n]) = map (\<lambda>k. k) (rev [1..<length n])"
    by (rule map_cong) auto
  then show ?thesis by (simp add: ancestors_def comp_def)
qed

section \<open>Depth and the order of initialisation\<close>

lemma depthLoop_rank:
  "depthLoop d0 depth current =
     depth + (case current of Above k \<Rightarrow> k | ListEl r \<Rightarrow> d0 + 2 * length r
              | ItemEl r \<Rightarrow> (if r = [] then 0 else d0 + 2 * length r - 1))"
proof (induction d0 depth current rule: depthLoop.induct)
  case (1 d0 depth current)
  show ?case
  proof (cases "parentElement d0 current")
    case None
    then show ?thesis
      by (subst depthLoop.simps) (cases current; auto split: if_splits)
  next
    case (Some p)
    from 1[OF Some] Some show ?thesis
      by (subst depthLoop.simps)
         (cases current; auto split: if_splits element.splits simp: length_butlast neq_Nil_conv)
  qed
qed

lemma getElementDepth_list: "getElementDepth d0 (ListEl r) = d0 + 2 * length r"
  by (simp add: getElementDepth_def depthLoop_rank)

lemma distanceLoop_eq:
  "prefix root r \<Longrightarrow>
     distanceLoop (ListEl root) d0 depth (ListEl r) = depth + 2 * (length r - length root)"
  "strict_prefix root r \<Longrightarrow>
     distanceLoop (ListEl root) d0 depth (ItemEl r) = depth + 2 * (length r - length root) - 1"
proof (induction "length r" arbitrary: r depth)
  case 0
  {
    case 1
    then show ?case using 0 by (subst distanceLoop.simps) simp
  next
    case 2
    then show ?case using 0 by (simp add: strict_prefix_def)
  }
next
  case (Suc m)
  {
    case 2
    then have b: "prefix root (butlast r)" "r \<noteq> []"
      by (auto simp: strict_prefix_iff butlast_append)
    with Suc have "m = length (butlast r)" by simp
    from Suc(1)[OF this] b
    have "distanceLoop (ListEl root) d0 (depth + 1) (ListEl (butlast r))
        = depth + 1 + 2 * (length (butlast r) - length root)"
      by simp
    moreover from 2 have "length root < length r"
      by (auto simp: strict_prefix_iff)
    ultimately show ?case using b Suc(2)
      by (subst distanceLoop.simps) (simp add: )
  next
    case 1
    show ?case
    proof (cases "r = root")
      case True
      then show ?thesis by (subst distanceLoop.simps) simp
    next
      case False
      with 1 have sp: "strict_prefix root r" by (simp add: strict_prefix_def)
      then have b: "prefix root (butlast r)" "r \<noteq> []"
        by (auto simp: strict_prefix_iff butlast_append)
      with Suc have m: "m = length (butlast r)" by simp
      have lt: "length root < length r" using sp by (auto simp: strict_prefix_iff)
      have "distanceLoop (ListEl root) d0 (depth + 1) (ItemEl r)
          = distanceLoop (ListEl root) d0 (depth + 2) (ListEl (butlast r))"
        using b by (subst distanceLoop.simps) simp
      also have "\<dots> = depth + 2 + 2 * (length (butlast r) - length root)"
        using Suc(1)[OF m] b by simp
      finally show ?thesis
        using False b lt Suc(2) by (subst distanceLoop.simps) simp
    qed
  }
qed

lemma distanceFromRoot_eq:
  "prefix root u \<Longrightarrow> distanceFromRoot d0 root u = 2 * (length u - length root)"
  by (simp add: distanceFromRoot_def distanceLoop_eq)

lemma sortedUls_by_distance:
  "sortedUls items d0 root =
     sort_key (\<lambda>u. - int (distanceFromRoot d0 root u)) (root_uls items root)"
  unfolding sortedUls_def
proof (rule sort_key_cong_order)
  fix x y assume "x \<in> set (root_uls items root)" "y \<in> set (root_uls items root)"
  then have "prefix root x" "prefix root y"
    by (simp_all add: root_uls_iff strict_prefix_def)
  then have "length root \<le> length x" "length root \<le> length y"
    by (simp_all add: prefix_length_le)
  then show "(- int (getElementDepth d0 (ListEl x)) \<le> - int (getElementDepth d0 (ListEl y)))
      = (- int (distanceFromRoot d0 root x) \<le> - int (distanceFromRoot d0 root y))"
    using \<open>prefix root x\<close> \<open>prefix root y\<close>
    by (simp add: getElementDepth_list distanceFromRoot_eq)
qed

lemma sortedUls_set: "set (sortedUls items d0 root) = set (root_uls items root)"
  by (simp add: sortedUls_def)

lemma sortedUls_deepest_first:
  "sorted_wrt (\<lambda>a b. length b \<le> length a) (sortedUls items d0 root)"
proof -
  let ?f = "\<lambda>u. - int (getElementDepth d0 (ListEl u))"
  have "sorted (map ?f (sortedUls items d0 root))"
    unfolding sortedUls_def by (rule sorted_sort_key)
  then have "sorted_wrt (\<lambda>a b. ?f a \<le> ?f b) (sortedUls items d0 root)"
    by (simp add: sorted_map)
  then show ?thesis
    by (rule sorted_wrt_mono_rel[rotated]) (simp add: getElementDepth_list)
qed

lemma fold_parentCheckboxes:
  "fold (\<lambda>checkbox st'. updateParentState items st' checkbox) (parentCheckboxes items u) st
     = updateParentState items st u"
  by (auto simp: parentCheckboxes_def updateParentState_eq findChildCheckboxes_def
      split: option.splits)

lemma initializeState_eq:
  "initializeState items d0 s root =
     fold (\<lambda>u st. updateParentState items st u) (sortedUls items d0 root) s"
  by (simp add: initializeState_def fold_parentCheckboxes)

lemma fold_update_rule:
  assumes "sorted_wrt (\<lambda>a b. length b \<le> length a) qs"
    and "q \<in> set qs" and "findChildCheckboxes items q \<noteq> []"
  shows "parent_rule items (fold (\<lambda>u st. updateParentState items st u) qs s) q"
  using assms
proof (induction qs arbitrary: q rule: rev_induct)
  case Nil
  then show ?case by simp
next
  case (snoc u qs)
  let ?s1 = "fold (\<lambda>u st. updateParentState items st u) qs s"
  have fold: "fold (\<lambda>u st. updateParentState items st u) (qs @ [u]) s
      = updateParentState items ?s1 u"
    by simp
  show ?case
  proof (cases "q = u")
    case True
    with snoc.prems(3) show ?thesis
      unfolding fold by (simp add: updateParentState_rule)
  next
    case False
    with snoc.prems have q: "q \<in> set qs" by simp
    from snoc.prems(1) have sorted: "sorted_wrt (\<lambda>a b. length b \<le> length a) qs"
      and le: "length u \<le> length q"
      using q by (auto simp: sorted_wrt_append)
    have ih: "parent_rule items ?s1 q"
      using snoc.IH[OF sorted q snoc.prems(3)] .
    have "u \<notin> set (findChildCheckboxes items q)"
      using le by (auto simp: findChildCheckboxes_mem)
    then have "\<And>c. c \<in> set (findChildCheckboxes items q)
        \<Longrightarrow> updateParentState items ?s1 u c = ?s1 c"
      by (intro updateParentState_other) auto
    moreover have "updateParentState items ?s1 u q = ?s1 q"
      using False by (simp add: updateParentState_other)
    ultimately show ?thesis
      unfolding fold
      using ih parent_rule_cong[of "updateParentState items ?s1 u" q ?s1 items]
      by simp
  qed
qed

lemma initializeState_rule:
  assumes "strict_prefix root q" and "findChildCheckboxes items q \<noteq> []"
  shows "parent_rule items (initializeState items d0 s root) q"
proof -
  have "q \<in> set (sortedUls items d0 root)"
    using assms by (simp add: sortedUls_set root_uls_iff owns_list_children)
  then show ?thesis
    unfolding initializeState_eq
    using sortedUls_deepest_first assms(2) by (intro fold_update_rule)
qed

section \<open>Mutual exclusion\<close>

lemma exclusive_derived: "exclusive (derived s kids)"
  by (auto simp: exclusive_def derived_def list_all_iff list_ex_iff)

lemma updateParentState_exclusive:
  "exclusive (s q) \<Longrightarrow> exclusive (updateParentState items s n q)"
  by (simp add: updateParentState_eq exclusive_derived)

lemma fold_updateParentState_exclusive:
  "exclusive (s q) \<Longrightarrow> exclusive (fold (\<lambda>u st. updateParentState items st u) qs s q)"
  by (induction qs arbitrary: s) (simp_all add: updateParentState_exclusive)

lemma updateAncestorCheckboxes_exclusive:
  "exclusive (s q) \<Longrightarrow> exclusive (updateAncestorCheckboxes items s c q)"
proof (induction items s c rule: updateAncestorCheckboxes.induct)
  case (1 items s c)
  show ?case
  proof (cases "findParentCheckbox items c")
    case None
    with 1(2) show ?thesis by (simp add: updateAncestorCheckboxes.simps)
  next
    case (Some parent)
    with 1 show ?thesis
      by (subst updateAncestorCheckboxes.simps) (simp add: updateParentState_exclusive)
  qed
qed

lemma setChildCheckboxes_exclusive:
  "exclusive (s q) \<Longrightarrow> exclusive (setChildCheckboxes items s n v q)"
  by (simp add: setChildCheckboxes_apply exclusive_def)

lemma changeHandler_exclusive:
  "exclusive (s q) \<Longrightarrow> exclusive (changeHandler items s n q)"
  by (simp add: changeHandler_def Let_def updateAncestorCheckboxes_exclusive
      setChildCheckboxes_exclusive)

lemma initializeState_exclusive:
  "exclusive (s q) \<Longrightarrow> exclusive (initializeState items d0 s root q)"
  by (simp add: initializeState_eq fold_updateParentState_exclusive)

lemma updateParentState_written:
  "updateParentState items s n q = s q \<or> exclusive (updateParentState items s n q)"
  by (simp add: updateParentState_eq exclusive_derived)

lemma fold_updateParentState_written:
  "fold (\<lambda>u st. updateParentState items st u) qs s q = s q \<or>
   exclusive (fold (\<lambda>u st. updateParentState items st u) qs s q)"
proof (induction qs arbitrary: s)
  case Nil
  then show ?case by simp
next
  case (Cons u qs)
  let ?s1 = "updateParentState items s u"
  from Cons[of ?s1] updateParentState_written[of items s u q]
    fold_updateParentState_exclusive[of ?s1 q items qs]
  show ?case by auto
qed

lemma initializeState_written:
  "initializeState items d0 s root q = s q \<or> exclusive (initializeState items d0 s root q)"
  by (simp add: initializeState_eq fold_updateParentState_written)

lemma updateAncestorCheckboxes_written:
  "updateAncestorCheckboxes items s c q = s q \<or>
   exclusive (updateAncestorCheckboxes items s c q)"
proof (induction items s c rule: updateAncestorCheckboxes.induct)
  case (1 items s c)
  show ?case
  proof (cases "findParentCheckbox items c")
    case None
    then show ?thesis by (simp add: updateAncestorCheckboxes.simps)
  next
    case (Some parent)
    let ?s1 = "updateParentState items s parent"
    have step: "updateAncestorCheckboxes items s c = updateAncestorCheckboxes items ?s1 parent"
      using Some by (subst updateAncestorCheckboxes.simps) simp
    from 1[OF Some] updateParentState_written[of items s parent q]
      updateAncestorCheckboxes_exclusive[of ?s1 q items parent]
    show ?thesis unfolding step by auto
  qed
qed

lemma setChildCheckboxes_written:
  "setChildCheckboxes items s n v q = s q \<or> exclusive (setChildCheckboxes items s n v q)"
  by (simp add: setChildCheckboxes_apply exclusive_def)

lemma changeHandler_written:
  "changeHandler items s n q = s q \<or> exclusive (changeHandler items s n q)"
proof -
  let ?s1 = "setChildCheckboxes items s n (checked (s n))"
  from updateAncestorCheckboxes_written[of items ?s1 n q]
    setChildCheckboxes_written[of items s n "checked (s n)" q]
    updateAncestorCheckboxes_exclusive[of ?s1 q items n]
  show ?thesis by (auto simp: changeHandler_def Let_def)
qed

section \<open>Teardown\<close>

text \<open>
  Once \<^verbatim>\<open>_handlers\<close> exists, \<^verbatim>\<open>destroy\<close> returns, and a second call changes
  nothing.  On the single root of the tests it removes every listener the constructor
  registered.
\<close>

lemma destroy_twice:
  assumes "handlers inst = Some hs"
  shows "\<exists>pg' inst'. destroy pg inst = Inr (pg', inst') \<and> destroy pg' inst' = Inr (pg', inst')"
  using assms by (simp add: destroy_def)

lemma destroy_single_root:
  "(case constructor demo 2 demo_querySelectorAll page0 (Str ''.tristate'') of
      Inl e \<Rightarrow> False
    | Inr (pg, inst) \<Rightarrow>
        listeners pg = [([0], 0), ([0, 0], 1), ([0, 1], 2)] \<and>
        handlers inst = Some [([0], 0), ([0, 0], 1), ([0, 1], 2)] \<and>
        (case destroy pg inst of
           Inl e \<Rightarrow> False
         | Inr (pg', inst') \<Rightarrow> listeners pg' = [] \<and> handlers inst' = Some []))"
  by code_simp

section \<open>The claims\<close>



text \<open>
  Claim C2.  After \<open>onToggle\<close> on a node \<open>n\<close> whose checkbox the user set to \<open>v\<close>, every
  descendant \<open>d\<close> of \<open>n\<close>, at any depth, has \<open>checked = v\<close> and \<open>indeterminate = False\<close>.
  The handler itself forces the descendants to the value it reads from \<open>n\<close>.
\<close>

theorem onToggle_forces_descendants:
  assumes "li_at items n \<noteq> None" and "strict_prefix n d" and "li_at items d \<noteq> None"
  shows "onToggle items s n v d = \<lparr>checked = v, indeterminate = False\<rparr> \<and>
         changeHandler items s n d = \<lparr>checked = checked (s n), indeterminate = False\<rparr>"
proof -
  from assms(1) have "n \<noteq> []" by auto
  then show ?thesis
    using assms(2,3)
    by (simp add: onToggle_def changeHandler_descendant userActivation_def)
qed

theorem onToggle_forces_descendants_witness:
  "li_at three [0] \<noteq> None \<and> strict_prefix [0] [0, 0, 1] \<and> li_at three [0, 0, 1] \<noteq> None \<and>
   onToggle three partly [0] True [0, 0, 1] = \<lparr>checked = True, indeterminate = False\<rparr>"
proof -
  have h: "li_at three [0] \<noteq> None" "strict_prefix [0] [0, 0, 1::nat]"
    "li_at three [0, 0, 1] \<noteq> None"
    by (simp_all add: three_def)
  from onToggle_forces_descendants[OF h, of partly True] h
  show ?thesis by simp
qed

text \<open>
  Claim C3.  After a single toggle on a tree that was globally consistent before the
  toggle, the whole tree is globally consistent again, with no further pass: every node
  with a non-empty list of immediate children, the toggled node and its ancestors
  included, satisfies the parent-from-children rule with respect to the states of its
  immediate children after the toggle.
\<close>

theorem onToggle_consistent:
  assumes "consistent items s"
  shows "consistent items (onToggle items s n v) \<and>
         (\<forall>q. findChildCheckboxes items q \<noteq> []
              \<longrightarrow> parent_rule items (onToggle items s n v) q)"
proof -
  let ?s1 = "userActivation s n v"
  have rule: "parent_rule items (onToggle items s n v) q"
    if k: "findChildCheckboxes items q \<noteq> []" for q
  proof -
    from k have qv: "q \<noteq> []" "li_at items q \<noteq> None"
      by (auto simp: findChildCheckboxes_def split: option.splits)
    have before: "parent_rule items s q"
      using assms k by (simp add: consistent_iff)
    show ?thesis
    proof (cases "li_at items n = None")
      case True
      then have "q \<noteq> n" "n \<notin> set (findChildCheckboxes items q)"
        using qv by (auto simp: findChildCheckboxes_mem)
      then have "parent_rule items ?s1 q"
        using before by (simp add: userActivation_rule)
      then show ?thesis
        using True by (simp add: onToggle_def changeHandler_no_item)
    next
      case False
      then have n: "n \<noteq> []" by auto
      consider "q = n" | "strict_prefix n q" | "strict_prefix q n"
        | "\<not> prefix n q" "\<not> strict_prefix q n"
        by (auto simp: strict_prefix_def)
      then show ?thesis
      proof cases
        case 1
        then show ?thesis
          using n k
          by (simp add: onToggle_def changeHandler_self_rule userActivation_def)
      next
        case 2
        then show ?thesis
          using n k by (simp add: onToggle_def changeHandler_descendant_rule)
      next
        case 3
        then show ?thesis
          using False qv by (simp add: onToggle_def changeHandler_ancestor)
      next
        case 4
        then have "q \<noteq> n" by auto
        moreover have "n \<notin> set (findChildCheckboxes items q)"
          using 4(2) by (auto simp: findChildCheckboxes_mem strict_prefix_iff)
        ultimately have "parent_rule items ?s1 q"
          using before by (simp add: userActivation_rule)
        then show ?thesis
          using 4 by (simp add: onToggle_def changeHandler_unrelated_rule)
      qed
    qed
  qed
  then show ?thesis
    by (simp add: consistent_iff)
qed

theorem onToggle_consistent_witness:
  "consistent demo partly \<and>
   findChildCheckboxes demo [0] \<noteq> [] \<and>
   consistent demo (onToggle demo partly [0] True) \<and>
   parent_rule demo (onToggle demo partly [0] True) [0] \<and>
   onToggle demo partly [0] True [0] = \<lparr>checked = True, indeterminate = False\<rparr> \<and>
   consistent demo (onToggle demo partly [0, 1] True) \<and>
   parent_rule demo (onToggle demo partly [0, 1] True) [0] \<and>
   onToggle demo partly [0, 1] True [0] = \<lparr>checked = True, indeterminate = False\<rparr>"
proof -
  have h: "consistent demo partly"
    by code_simp
  have k: "findChildCheckboxes demo [0] \<noteq> []"
    by code_simp
  have e: "checked (onToggle demo partly [0] True [0])"
    "\<not> indeterminate (onToggle demo partly [0] True [0])"
    "checked (onToggle demo partly [0, 1] True [0])"
    "\<not> indeterminate (onToggle demo partly [0, 1] True [0])"
    by code_simp+
  have v: "onToggle demo partly [0] True [0] = \<lparr>checked = True, indeterminate = False\<rparr>"
    "onToggle demo partly [0, 1] True [0] = \<lparr>checked = True, indeterminate = False\<rparr>"
    using e by (cases "onToggle demo partly [0] True [0]"; simp;
                cases "onToggle demo partly [0, 1] True [0]"; simp)+
  from onToggle_consistent[OF h, of "[0]" True] onToggle_consistent[OF h, of "[0, 1]" True]
    h k v
  show ?thesis by blast
qed

text \<open>
  Claim C4.  \<^verbatim>\<open>_initializeState\<close> enumerates all nested lists of the tree below the
  root, orders them by descending depth, where ordering by the depth the code counts (all
  ancestors in the document) is ordering by the distance from the tree's own root,
  recomputes the owner of each list from its immediate children in that order, and
  thereby leaves every node of the tree that has children in the state the
  parent-from-children rule prescribes.
\<close>

theorem initializeState_bottom_up:
  "set (root_uls items root) = {q. strict_prefix root q \<and> owns_list items q} \<and>
   sortedUls items d0 root =
     sort_key (\<lambda>u. - int (distanceFromRoot d0 root u)) (root_uls items root) \<and>
   sorted_wrt (\<lambda>a b. distanceFromRoot d0 root b \<le> distanceFromRoot d0 root a)
     (sortedUls items d0 root) \<and>
   initializeState items d0 s root =
     fold (\<lambda>u st. updateParentState items st u) (sortedUls items d0 root) s \<and>
   (\<forall>q. strict_prefix root q \<and> findChildCheckboxes items q \<noteq> []
        \<longrightarrow> parent_rule items (initializeState items d0 s root) q) \<and>
   consistent items (initializeState items d0 s [])"
proof -
  have enum: "set (root_uls items root) = {q. strict_prefix root q \<and> owns_list items q}"
    by (auto simp: root_uls_iff)
  let ?f = "\<lambda>u. - int (distanceFromRoot d0 root u)"
  have "sorted (map ?f (sort_key ?f (root_uls items root)))"
    by (rule sorted_sort_key)
  then have "sorted_wrt (\<lambda>a b. ?f a \<le> ?f b) (sortedUls items d0 root)"
    by (simp add: sorted_map sortedUls_by_distance)
  then have order: "sorted_wrt (\<lambda>a b. distanceFromRoot d0 root b \<le> distanceFromRoot d0 root a)
      (sortedUls items d0 root)"
    by (rule sorted_wrt_mono_rel[rotated]) simp
  have rule: "\<forall>q. strict_prefix root q \<and> findChildCheckboxes items q \<noteq> []
      \<longrightarrow> parent_rule items (initializeState items d0 s root) q"
    by (simp add: initializeState_rule)
  have "consistent items (initializeState items d0 s [])"
    unfolding consistent_iff
  proof (intro allI impI)
    fix q assume k: "findChildCheckboxes items q \<noteq> []"
    then have "q \<noteq> []" by (auto simp: findChildCheckboxes_def)
    then have "strict_prefix [] q" by (simp add: strict_prefix_iff)
    then show "parent_rule items (initializeState items d0 s []) q"
      using k by (rule initializeState_rule)
  qed
  with enum order rule show ?thesis
    by (simp add: sortedUls_by_distance[symmetric] initializeState_eq[symmetric])
qed

theorem initializeState_bottom_up_witness:
  "sortedUls three 2 [] = [ [0, 0], [0, 1], [0]] \<and>
   strict_prefix [] [0::nat] \<and> findChildCheckboxes three [0] \<noteq> [] \<and>
   parent_rule three
     (initializeState three 2 (blank([0, 0, 1] := \<lparr>checked = True, indeterminate = False\<rparr>)) [])
     [0] \<and>
   indeterminate
     (initializeState three 2 (blank([0, 0, 1] := \<lparr>checked = True, indeterminate = False\<rparr>)) []
        [0])"
proof -
  have h: "strict_prefix [] [0::nat]" "findChildCheckboxes three [0] \<noteq> []"
    by (simp_all add: three_def findChildCheckboxes_def)
  have e: "sortedUls three 2 [] = [ [0, 0], [0, 1], [0]]"
    "indeterminate
     (initializeState three 2 (blank([0, 0, 1] := \<lparr>checked = True, indeterminate = False\<rparr>)) []
        [0])"
    by code_simp+
  from initializeState_bottom_up[of three "[]" 2
      "blank([0, 0, 1] := \<lparr>checked = True, indeterminate = False\<rparr>)"] h e
  show ?thesis by blast
qed

text \<open>
  Claim C5.  In one run of the change handler every forced write of the downward
  propagation precedes every recomputation of the upward propagation; the forced writes
  cover all descendants of the toggled node, and the recomputations visit the ancestors of
  the toggled node from the immediate parent upwards, one level at a time, ending with the
  item of the outermost list, above which there is no further ancestor.
\<close>

theorem changeHandler_order:
  assumes "li_at items n \<noteq> None"
  shows "changeHandlerT items s n =
           (changeHandler items s n,
            map (\<lambda>d. Forced d (checked (s n))) (root_inputs items n) @
            map Recomputed (ancestors n)) \<and>
         set (root_inputs items n) = {d. strict_prefix n d \<and> li_at items d \<noteq> None} \<and>
         set (ancestors n) = {a. a \<noteq> [] \<and> strict_prefix a n} \<and>
         map length (ancestors n) = rev [1..<length n] \<and>
         (2 \<le> length n \<longrightarrow> hd (ancestors n) = butlast n)"
proof -
  have "set (root_inputs items n) = {d. strict_prefix n d \<and> li_at items d \<noteq> None}"
    by (auto simp: root_inputs_iff)
  moreover have "2 \<le> length n \<longrightarrow> hd (ancestors n) = butlast n"
    by (simp add: ancestors_step)
  ultimately show ?thesis
    using assms by (simp add: changeHandlerT_eq ancestors_set ancestors_lengths)
qed

theorem changeHandler_order_witness:
  "li_at three [0, 0] \<noteq> None \<and>
   snd (changeHandlerT three (userActivation blank [0, 0] True) [0, 0]) =
     [Forced [0, 0, 0] True, Forced [0, 0, 1] True, Recomputed [0]] \<and>
   snd (changeHandlerT three (userActivation blank [0, 0, 1] True) [0, 0, 1]) =
     [Recomputed [0, 0], Recomputed [0]]"
proof -
  have h: "li_at three [0, 0] \<noteq> None" "li_at three [0, 0, 1] \<noteq> None"
    by (simp_all add: three_def)
  have e: "root_inputs three [0, 0] = [ [0, 0, 0], [0, 0, 1]]" "ancestors [0, 0::nat] = [ [0]]"
    "root_inputs three [0, 0, 1] = []" "ancestors [0, 0, 1::nat] = [ [0, 0], [0]]"
    "checked (userActivation blank [0, 0] True [0, 0])"
    by code_simp+
  from changeHandler_order[OF h(1), of "userActivation blank [0, 0] True"]
    changeHandler_order[OF h(2), of "userActivation blank [0, 0, 1] True"] h e
  show ?thesis by simp
qed

text \<open>
  Claim C6.  Checked and indeterminate are mutually exclusive under both operations.
  Every checkbox that initialisation or the change handler writes is written with at most
  one of the two set, a checkbox they do not write keeps its values, and the toggled node
  itself has been given its checkedness with \<open>indeterminate\<close> cleared; so no checkbox that
  was not both checked and indeterminate before an operation is both after it, and the
  toggled node never is.
\<close>

theorem exclusive_preserved:
  "(exclusive (s q) \<longrightarrow>
      exclusive (initializeState items d0 s root q) \<and>
      exclusive (changeHandler items s n q) \<and>
      exclusive (onToggle items s n v q)) \<and>
   (initializeState items d0 s root q = s q \<or>
      exclusive (initializeState items d0 s root q)) \<and>
   (changeHandler items s n q = s q \<or> exclusive (changeHandler items s n q)) \<and>
   exclusive (onToggle items s n v n)"
proof -
  have "exclusive (onToggle items s n v q)" if "exclusive (s q)"
  proof -
    from that have "exclusive (userActivation s n v q)"
      by (simp add: userActivation_def exclusive_def)
    then show ?thesis
      by (simp add: onToggle_def changeHandler_exclusive)
  qed
  moreover have "exclusive (onToggle items s n v n)"
    by (simp add: onToggle_self exclusive_def)
  ultimately show ?thesis
    by (simp add: initializeState_exclusive changeHandler_exclusive
        initializeState_written changeHandler_written)
qed

theorem exclusive_preserved_witness:
  "exclusive (partly [0]) \<and>
   exclusive (initializeState demo 2 partly [] [0]) \<and>
   exclusive (changeHandler demo partly [0, 1] [0]) \<and>
   exclusive (onToggle demo partly [0, 1] True [0]) \<and>
   exclusive (onToggle demo partly [0] True [0]) \<and>
   onToggle demo partly [0] True [0] = \<lparr>checked = True, indeterminate = False\<rparr>"
proof -
  have h: "exclusive (partly [0])" by code_simp
  have e: "checked (onToggle demo partly [0] True [0])"
    "\<not> indeterminate (onToggle demo partly [0] True [0])"
    by code_simp+
  then have v: "onToggle demo partly [0] True [0] = \<lparr>checked = True, indeterminate = False\<rparr>"
    by (cases "onToggle demo partly [0] True [0]") simp
  from exclusive_preserved[of partly "[0]" demo 2 "[]" "[0, 1]" True]
    exclusive_preserved[of partly "[0]" demo 2 "[]" "[0]" True] h v
  show ?thesis by simp
qed

text \<open>
  Claim C7.  When the selector or reference resolves to no container, the constructor
  returns normally, with one error reported on the console, and the instance is inert: its
  root set is empty, no handler has been registered and no checkbox has been initialised.
\<close>

theorem constructor_no_elements:
  assumes "getElements querySelectorAll selector = Inr []"
  shows "\<exists>pg' inst.
           constructor items d0 querySelectorAll pg selector = Inr (pg', inst) \<and>
           roots inst = [] \<and> handlers inst = None \<and>
           console pg' = console pg @ [no_elements] \<and>
           listeners pg' = listeners pg \<and> nextHandler pg' = nextHandler pg \<and>
           boxes pg' = boxes pg"
  using assms by (simp add: constructor_def)

theorem constructor_no_elements_witness:
  "getElements demo_querySelectorAll (Str ''.missing'') = Inr [] \<and>
   (\<exists>pg' inst.
      constructor demo 2 demo_querySelectorAll page0 (Str ''.missing'') = Inr (pg', inst) \<and>
      roots inst = [] \<and> handlers inst = None \<and>
      console pg' = console page0 @ [no_elements] \<and>
      listeners pg' = listeners page0 \<and> nextHandler pg' = nextHandler page0 \<and>
      boxes pg' = boxes page0)"
proof -
  have h: "getElements demo_querySelectorAll (Str ''.missing'') = Inr []"
    by (simp add: getElements_def demo_querySelectorAll_def)
  from constructor_no_elements[OF h, of demo 2 page0] h
  show ?thesis by blast
qed

text \<open>
  Claim C8 does not hold of the code.  An instance constructed on a selector that matches
  nothing has no \<^verbatim>\<open>_handlers\<close>, and \<^verbatim>\<open>destroy\<close> throws on it.  An instance
  constructed on roots that overlap (here the selector \<^verbatim>\<open>ul\<close> on the markup of the tests)
  registers two handlers on a checkbox that lies in both roots but keeps only the second in
  \<^verbatim>\<open>_handlers\<close>; \<^verbatim>\<open>destroy\<close> leaves the first ones registered, and a change of a
  child after teardown still recomputes the parent.
\<close>

theorem destroy_failures:
  "(case constructor demo 2 demo_querySelectorAll page0 (Str ''.missing'') of
      Inl e \<Rightarrow> False
    | Inr (pg, inst) \<Rightarrow>
        roots inst = [] \<and>
        (case destroy pg inst of Inl e \<Rightarrow> e = TypeError | Inr r \<Rightarrow> False)) \<and>
   (case constructor demo 2 demo_querySelectorAll page0 (Str ''ul'') of
      Inl e \<Rightarrow> False
    | Inr (pg, inst) \<Rightarrow>
        listeners pg = [([0], 0), ([0, 0], 1), ([0, 1], 2), ([0, 0], 3), ([0, 1], 4)] \<and>
        handlers inst = Some [([0], 0), ([0, 0], 3), ([0, 1], 4)] \<and>
        (case destroy pg inst of
           Inl e \<Rightarrow> False
         | Inr (pg', inst') \<Rightarrow>
             listeners pg' = [([0, 0], 1), ([0, 1], 2)] \<and>
             boxes pg' [0] = \<lparr>checked = False, indeterminate = False\<rparr> \<and>
             boxes (dispatchChange demo (pg'\<lparr>boxes := userActivation (boxes pg') [0, 0] True\<rparr>)
                      [0, 0]) [0]
               = \<lparr>checked = False, indeterminate = True\<rparr>))"
  by code_simp

text \<open>
  Claim C9.  Initialisation is idempotent: running \<^verbatim>\<open>_initializeState\<close> a second time on
  the unchanged markup leaves every checkbox with the values it had after the first run.
\<close>

theorem initializeState_idempotent:
  "initializeState items d0 (initializeState items d0 s root) root
     = initializeState items d0 s root"
proof -
  let ?s1 = "initializeState items d0 s root"
  have "\<And>u. u \<in> set (sortedUls items d0 root) \<Longrightarrow> updateParentState items ?s1 u = ?s1"
  proof -
    fix u assume u: "u \<in> set (sortedUls items d0 root)"
    show "updateParentState items ?s1 u = ?s1"
    proof (cases "findChildCheckboxes items u = []")
      case True
      then show ?thesis by (rule updateParentState_noop)
    next
      case False
      from u have "strict_prefix root u"
        by (simp add: sortedUls_set root_uls_iff)
      then have "parent_rule items ?s1 u"
        using False by (rule initializeState_rule)
      then show ?thesis by (rule updateParentState_fixed)
    qed
  qed
  then have "fold (\<lambda>u st. updateParentState items st u) (sortedUls items d0 root) ?s1 = ?s1"
    by (rule fold_fixed)
  then show ?thesis
    by (subst initializeState_eq) 
qed

text \<open>
  Claim C10.  The handler run for a node \<open>n\<close> writes at most the strict descendants and
  the strict ancestors of \<open>n\<close>: \<open>n\<close> itself and every node that is neither below nor
  above \<open>n\<close> keep the values they had when the handler started; after the user set \<open>n\<close> to
  \<open>v\<close>, \<open>n\<close> holds what the activation gave it and the unrelated nodes hold their prior
  values.
\<close>

theorem propagation_frame:
  assumes "\<not> strict_prefix n q" and "\<not> strict_prefix q n"
  shows "changeHandler items s n q = s q \<and>
         onToggle items s n v n = \<lparr>checked = v, indeterminate = False\<rparr> \<and>
         (q \<noteq> n \<longrightarrow> onToggle items s n v q = s q)"
  using assms
  by (simp add: changeHandler_frame onToggle_self onToggle_def userActivation_def)

theorem propagation_frame_witness:
  "\<not> strict_prefix [0, 0] [0, 1, 0::nat] \<and> \<not> strict_prefix [0, 1, 0] [0, 0::nat] \<and>
   changeHandler three partly [0, 0] [0, 1, 0] = partly [0, 1, 0] \<and>
   onToggle three partly [0, 0] False [0, 1, 0] = partly [0, 1, 0] \<and>
   changeHandler three partly [0, 0] [0, 0] = partly [0, 0]"
proof -
  have h: "\<not> strict_prefix [0, 0] [0, 1, 0::nat]" "\<not> strict_prefix [0, 1, 0] [0, 0::nat]"
    by simp_all
  have h': "\<not> strict_prefix [0, 0] [0, 0::nat]"
    by simp
  from propagation_frame[OF h, of three partly False]
    propagation_frame[OF h' h', of three partly False] h
  show ?thesis by simp
qed

end
